theory Spec2Isabelle
  imports Complex_Main
begin

section \<open>The snake engine of \<^verbatim>\<open>src/games/snake.py\<close>\<close>

text \<open>
  The class \<^verbatim>\<open>SnakeGame\<close> is embedded as a record of its mutable attributes and one
  function per method. Drawing (the image argument of \<^verbatim>\<open>update\<close>, the food sprite and
  every \<^verbatim>\<open>cv2\<close>/\<^verbatim>\<open>cvzone\<close> call) reads the game state and never writes it, and is left out.

  The two inputs a method takes from its environment are made arguments:
  \<^item> \<^verbatim>\<open>time.time()\<close> becomes a timestamp argument. Timestamps are Python floats; they are
    modelled as exact reals, so the rounding of IEEE doubles is not part of the model;
  \<^item> \<^verbatim>\<open>random.choice\<close> takes the random draw as a natural number and returns the element
    at that index modulo the length, so every element of the sequence is a possible result.

  Python's \<^verbatim>\<open>IndexError\<close> (\<^verbatim>\<open>snake[0]\<close> and \<^verbatim>\<open>snake.pop()\<close> on an empty list,
  \<^verbatim>\<open>random.choice\<close> of an empty sequence) is a value of the result type.
\<close>

datatype error = IndexError

subsection \<open>Constants assigned once in \<^verbatim>\<open>__init__\<close>\<close>

definition margin_x :: int where
  "margin_x = 70"

definition margin_top :: int where
  "margin_top = 70"

definition hand_space_bottom :: int where
  "hand_space_bottom = 150"

definition margin_bottom :: int where
  "margin_bottom = 70 + hand_space_bottom"

definition cell :: int where
  "cell = 26"

definition food_cells :: int where
  "food_cells = 3"

definition move_interval :: real where
  "move_interval = 12 / 100"

subsection \<open>The game state\<close>

record game =
  game_w :: int
  game_h :: int
  grid_w :: int
  grid_h :: int
  score :: int
  gameOver :: bool
  eat_flash_until :: real
  last_move_t :: real
  dir :: "int \<times> int"
  pending_dir :: "int \<times> int"
  snake :: "(int \<times> int) list"
  grow :: int
  paused :: bool
  last_hand_seen_t :: real
  food_tl :: "int \<times> int"

subsection \<open>Python built-ins\<close>

text \<open>\<^verbatim>\<open>int(x)\<close> of a float truncates towards zero.\<close>

definition py_int :: "real \<Rightarrow> int" where
  "py_int x = (if 0 \<le> x then \<lfloor>x\<rfloor> else \<lceil>x\<rceil>)"

text \<open>\<^verbatim>\<open>random.choice(seq)\<close> with the draw \<open>r\<close>.\<close>

definition random_choice :: "nat \<Rightarrow> 'a list \<Rightarrow> error + 'a" where
  "random_choice r xs = (if xs = [] then Inl IndexError else Inr (xs ! (r mod length xs)))"

subsection \<open>Food placement\<close>

definition food_cells_list :: "int \<times> int \<Rightarrow> (int \<times> int) list" where
  "food_cells_list top_left =
     (case top_left of (x0, y0) \<Rightarrow>
        concat (map (\<lambda>i. map (\<lambda>j. (x0 + i, y0 + j)) [0..food_cells - 1]) [0..food_cells - 1]))"

text \<open>The list \<^verbatim>\<open>candidates\<close> built by the two nested loops of \<^verbatim>\<open>_random_food_location\<close>.\<close>

definition food_candidates :: "game \<Rightarrow> (int \<times> int) list" where
  "food_candidates s =
     concat (map (\<lambda>x. concat (map (\<lambda>y.
        if list_all (\<lambda>c. c \<notin> set (snake s)) (food_cells_list (x, y)) then [(x, y)] else [])
        [0..grid_h s - food_cells])) [0..grid_w s - food_cells])"

definition random_food_location :: "nat \<Rightarrow> game \<Rightarrow> error + game" where
  "random_food_location r s =
     (if grid_w s < food_cells \<or> grid_h s < food_cells then
        Inr (s\<lparr>food_tl := (max 0 (grid_w s div 2), max 0 (grid_h s div 2))\<rparr>)
      else if food_candidates s = [] then
        Inr (s\<lparr>food_tl := (max 0 ((grid_w s - food_cells) div 2),
                            max 0 ((grid_h s - food_cells) div 2))\<rparr>)
      else
        (case random_choice r (food_candidates s) of
           Inl e \<Rightarrow> Inl e
         | Inr c \<Rightarrow> Inr (s\<lparr>food_tl := c\<rparr>)))"

subsection \<open>Construction and reset\<close>

text \<open>
  \<^verbatim>\<open>reset\<close> reads the clock twice (for \<^verbatim>\<open>_last_move_t\<close> and for \<^verbatim>\<open>_last_hand_seen_t\<close>):
  the two readings are the arguments \<open>t_move\<close> and \<open>t_seen\<close>.
\<close>

definition reset :: "real \<Rightarrow> real \<Rightarrow> nat \<Rightarrow> game \<Rightarrow> error + game" where
  "reset t_move t_seen r s =
     (let cx = grid_w s div 2; cy = grid_h s div 2 in
      random_food_location r
        (s\<lparr>score := 0, gameOver := False, eat_flash_until := 0, last_move_t := t_move,
           dir := (1, 0), pending_dir := (1, 0),
           snake := [(cx, cy), (cx - 1, cy), (cx - 2, cy)],
           grow := 0, paused := False, last_hand_seen_t := t_seen, food_tl := (0, 0)\<rparr>))"

text \<open>
  \<^verbatim>\<open>__init__\<close>: the grid is derived from the pixel size, at least 8 cells each way, and the
  game is reset. The attributes that \<^verbatim>\<open>reset\<close> overwrites start at the values \<^verbatim>\<open>__init__\<close>
  gives them, or at the values \<^verbatim>\<open>reset\<close> gives them where \<^verbatim>\<open>__init__\<close> does not assign them.
\<close>

definition init :: "int \<Rightarrow> int \<Rightarrow> real \<Rightarrow> real \<Rightarrow> real \<Rightarrow> nat \<Rightarrow> error + game" where
  "init game_width game_height t_init t_move t_seen r =
     (let usable_w = max 1 (game_width - 2 * margin_x);
          usable_h = max 1 (game_height - margin_top - margin_bottom)
      in reset t_move t_seen r
           \<lparr>game_w = game_width, game_h = game_height,
            grid_w = max 8 (usable_w div cell), grid_h = max 8 (usable_h div cell),
            score = 0, gameOver = False, eat_flash_until = 0, last_move_t = t_init,
            dir = (1, 0), pending_dir = (1, 0), snake = [], grow = 0, paused = False,
            last_hand_seen_t = t_seen, food_tl = (0, 0)\<rparr>)"

subsection \<open>From the pointer to a direction\<close>

definition board_origin :: "game \<Rightarrow> int \<times> int" where
  "board_origin s =
     (let usable_w = game_w s - 2 * margin_x;
          usable_h = game_h s - margin_top - margin_bottom;
          bw = grid_w s * cell;
          bh = grid_h s * cell
      in (margin_x + max 0 ((usable_w - bw) div 2), margin_top + max 0 ((usable_h - bh) div 2)))"

definition head_pixel_center :: "game \<Rightarrow> error + (int \<times> int)" where
  "head_pixel_center s =
     (case snake s of
        [] \<Rightarrow> Inl IndexError
      | (gx, gy) # _ \<Rightarrow>
          (case board_origin s of (ox, oy) \<Rightarrow>
             Inr (py_int (of_int (ox + gx * cell) + of_int cell * (5 / 10)),
                  py_int (of_int (oy + gy * cell) + of_int cell * (5 / 10)))))"

definition update_direction_from_finger :: "int \<times> int \<Rightarrow> game \<Rightarrow> error + game" where
  "update_direction_from_finger finger_px s =
     (case head_pixel_center s of
        Inl e \<Rightarrow> Inl e
      | Inr (hx, hy) \<Rightarrow>
          (let dxp = fst finger_px - hx;
               dyp = snd finger_px - hy;
               dead = (of_int cell * (55 / 100) :: real)
           in if \<bar>of_int dxp\<bar> < dead \<and> \<bar>of_int dyp\<bar> < dead then Inr s
              else
                (let sx = (if \<bar>of_int dxp\<bar> < dead then 0 else if dxp > 0 then 1 else - 1 :: int);
                     sy = (if \<bar>of_int dyp\<bar> < dead then 0 else if dyp > 0 then 1 else - 1 :: int);
                     cand = (if sx \<noteq> 0 \<and> sy \<noteq> 0 then (sx, sy)
                             else if \<bar>dxp\<bar> \<ge> \<bar>dyp\<bar> then (if dxp > 0 then (1, 0) else (- 1, 0))
                             else (if dyp > 0 then (0, 1) else (0, - 1)))
                 in if fst cand = - fst (dir s) \<and> snd cand = - snd (dir s) then Inr s
                    else Inr (s\<lparr>pending_dir := cand\<rparr>))))"

subsection \<open>One movement step\<close>

text \<open>
  The body of the \<^verbatim>\<open>for\<close> loop of \<^verbatim>\<open>update\<close>. The Boolean of the result says whether the
  iteration left the loop through \<^verbatim>\<open>break\<close> (a collision).
\<close>

definition step :: "nat \<Rightarrow> real \<Rightarrow> game \<Rightarrow> error + (bool \<times> game)" where
  "step r now s0 =
     (let s = s0\<lparr>dir := pending_dir s0\<rparr> in
      case snake s of
        [] \<Rightarrow> Inl IndexError
      | (hx, hy) # _ \<Rightarrow>
          (let nx = hx + fst (dir s);
               ny = hy + snd (dir s);
               new_head = (nx, ny)
           in if nx < 0 \<or> ny < 0 \<or> nx \<ge> grid_w s \<or> ny \<ge> grid_h s \<or> new_head \<in> set (snake s)
              then Inr (True, s\<lparr>gameOver := True\<rparr>)
              else
                (let s1 = s\<lparr>snake := new_head # snake s\<rparr> in
                 case (if new_head \<in> set (food_cells_list (food_tl s1))
                       then random_food_location r
                              (s1\<lparr>score := score s1 + 1, grow := grow s1 + 2,
                                  eat_flash_until := now + 35 / 100\<rparr>)
                       else Inr s1) of
                   Inl e \<Rightarrow> Inl e
                 | Inr s2 \<Rightarrow>
                     if grow s2 > 0 then Inr (False, s2\<lparr>grow := grow s2 - 1\<rparr>)
                     else if snake s2 = [] then Inl IndexError
                     else Inr (False, s2\<lparr>snake := butlast (snake s2)\<rparr>))))"

text \<open>
  Names for the three tests of the loop body, read in the state before the step: the cell
  computed as \<^verbatim>\<open>new_head\<close> from the head and the pending direction (lines 328 to 331; only
  meaningful for a snake that has a head), the collision test of line 333 and the food
  test of line 340.
\<close>

definition new_head :: "game \<Rightarrow> int \<times> int" where
  "new_head s = (fst (hd (snake s)) + fst (pending_dir s), snd (hd (snake s)) + snd (pending_dir s))"

definition collides :: "game \<Rightarrow> bool" where
  "collides s =
     (fst (new_head s) < 0 \<or> snd (new_head s) < 0 \<or> fst (new_head s) \<ge> grid_w s
      \<or> snd (new_head s) \<ge> grid_h s \<or> new_head s \<in> set (snake s))"

definition heads_into_food :: "game \<Rightarrow> bool" where
  "heads_into_food s = (new_head s \<in> set (food_cells_list (food_tl s)))"

text \<open>
  The loop \<^verbatim>\<open>for _ in range(steps)\<close>. Iteration \<open>i\<close> of the loop uses the draw \<open>rnd i\<close>.
  Beside the state the loop returns a ghost count: the number of iterations that ran to
  their end, that is, of steps that moved the snake.
\<close>

fun run_steps :: "nat \<Rightarrow> (nat \<Rightarrow> nat) \<Rightarrow> real \<Rightarrow> game \<Rightarrow> error + (nat \<times> game)" where
  "run_steps 0 rnd now s = Inr (0, s)"
| "run_steps (Suc n) rnd now s =
     (case step (rnd 0) now s of
        Inl e \<Rightarrow> Inl e
      | Inr (True, s') \<Rightarrow> Inr (0, s')
      | Inr (False, s') \<Rightarrow>
          (case run_steps n (\<lambda>i. rnd (Suc i)) now s' of
             Inl e \<Rightarrow> Inl e
           | Inr (k, s'') \<Rightarrow> Inr (Suc k, s'')))"

subsection \<open>The update call\<close>

text \<open>Lines 315 to 321: the bookkeeping of the pointer signal.\<close>

definition signal_phase :: "real \<Rightarrow> (int \<times> int) option \<Rightarrow> game \<Rightarrow> error + game" where
  "signal_phase now currentHead s =
     (case currentHead of
        Some p \<Rightarrow> update_direction_from_finger p (s\<lparr>last_hand_seen_t := now, paused := False\<rparr>)
      | None \<Rightarrow>
          if now - last_hand_seen_t s > 6 / 10 then Inr (s\<lparr>paused := True\<rparr>) else Inr s)"

text \<open>Lines 324 and 325: the number of iterations of the loop.\<close>

definition catch_up_steps :: "real \<Rightarrow> game \<Rightarrow> int" where
  "catch_up_steps now s = min (py_int ((now - last_move_t s) / move_interval)) 3"

text \<open>Lines 323 to 351: the movement block, with the ghost count of \<open>run_steps\<close>.\<close>

definition move_phase :: "(nat \<Rightarrow> nat) \<Rightarrow> real \<Rightarrow> game \<Rightarrow> error + (nat \<times> game)" where
  "move_phase rnd now s =
     (if \<not> paused s \<and> now - last_move_t s \<ge> move_interval then
        (case run_steps (nat (catch_up_steps now s)) rnd now s of
           Inl e \<Rightarrow> Inl e
         | Inr (k, s') \<Rightarrow> Inr (k, s'\<lparr>last_move_t := now\<rparr>))
      else Inr (0, s))"

text \<open>\<^verbatim>\<open>update\<close> with the ghost count of the steps applied by this call.\<close>

definition update_counted ::
  "(nat \<Rightarrow> nat) \<Rightarrow> real \<Rightarrow> (int \<times> int) option \<Rightarrow> game \<Rightarrow> error + (nat \<times> game)" where
  "update_counted rnd now currentHead s =
     (if gameOver s then Inr (0, s)
      else
        (case signal_phase now currentHead s of
           Inl e \<Rightarrow> Inl e
         | Inr s1 \<Rightarrow> move_phase rnd now s1))"

definition update :: "(nat \<Rightarrow> nat) \<Rightarrow> real \<Rightarrow> (int \<times> int) option \<Rightarrow> game \<Rightarrow> error + game" where
  "update rnd now currentHead s = map_sum id snd (update_counted rnd now currentHead s)"

text \<open>A session: the calls of \<^verbatim>\<open>update\<close> made one after the other by the driving loop.\<close>

fun updates :: "((nat \<Rightarrow> nat) \<times> real \<times> (int \<times> int) option) list \<Rightarrow> game \<Rightarrow> error + game" where
  "updates [] s = Inr s"
| "updates ((rnd, now, currentHead) # calls) s =
     (case update rnd now currentHead s of Inl e \<Rightarrow> Inl e | Inr s' \<Rightarrow> updates calls s')"

subsection \<open>Vocabulary for food placement\<close>

text \<open>
  A food block lies in the grid when each of its cells does; it is free when none of its
  cells is a cell of the snake (the test of line 150).
\<close>

definition block_in_grid :: "game \<Rightarrow> int \<times> int \<Rightarrow> bool" where
  "block_in_grid s top_left =
     list_all (\<lambda>c. 0 \<le> fst c \<and> fst c < grid_w s \<and> 0 \<le> snd c \<and> snd c < grid_h s)
       (food_cells_list top_left)"

definition block_free :: "game \<Rightarrow> int \<times> int \<Rightarrow> bool" where
  "block_free s top_left = list_all (\<lambda>c. c \<notin> set (snake s)) (food_cells_list top_left)"

subsection \<open>Concrete states\<close>

text \<open>
  States of a game on the smallest board (8 by 8 cells), used to run the model on concrete
  inputs. \<open>example_game\<close> is the state after \<^verbatim>\<open>reset\<close> when the food lands at \<open>(5, 3)\<close>, right
  in front of the head; the next three are the states after one, two and three steps to
  the right; \<open>example_turned\<close> is reached by turning upwards after the first step. In
  \<open>tail_game\<close> the pending direction points at the tail cell, and in \<open>crowded_game\<close> the body
  meets every 3 by 3 block of the board. \<open>no_draws\<close> makes every random draw 0.
\<close>

definition no_draws :: "nat \<Rightarrow> nat" where
  "no_draws i = 0"

definition example_game :: game where
  "example_game =
     \<lparr>game_w = 348, game_h = 498, grid_w = 8, grid_h = 8, score = 0, gameOver = False,
      eat_flash_until = 0, last_move_t = 0, dir = (1, 0), pending_dir = (1, 0),
      snake = [(4, 4), (3, 4), (2, 4)], grow = 0, paused = False, last_hand_seen_t = 0,
      food_tl = (5, 3)\<rparr>"

definition example_after_eating :: game where
  "example_after_eating =
     \<lparr>game_w = 348, game_h = 498, grid_w = 8, grid_h = 8, score = 1, gameOver = False,
      eat_flash_until = 35 / 100, last_move_t = 0, dir = (1, 0), pending_dir = (1, 0),
      snake = [(5, 4), (4, 4), (3, 4), (2, 4)], grow = 1, paused = False, last_hand_seen_t = 0,
      food_tl = (0, 0)\<rparr>"

definition example_second_tick :: game where
  "example_second_tick =
     example_after_eating\<lparr>snake := [(6, 4), (5, 4), (4, 4), (3, 4), (2, 4)], grow := 0\<rparr>"

definition example_third_tick :: game where
  "example_third_tick =
     example_after_eating\<lparr>snake := [(7, 4), (6, 4), (5, 4), (4, 4), (3, 4)], grow := 0\<rparr>"

definition example_turned :: game where
  "example_turned =
     \<lparr>game_w = 348, game_h = 498, grid_w = 8, grid_h = 8, score = 1, gameOver = False,
      eat_flash_until = 48 / 100, last_move_t = 30 / 100, dir = (0, - 1), pending_dir = (0, - 1),
      snake = [(5, 3), (5, 4), (4, 4), (3, 4), (2, 4)], grow = 0, paused = False,
      last_hand_seen_t = 30 / 100, food_tl = (0, 0)\<rparr>"

definition tail_game :: game where
  "tail_game =
     \<lparr>game_w = 348, game_h = 498, grid_w = 8, grid_h = 8, score = 0, gameOver = False,
      eat_flash_until = 0, last_move_t = 0, dir = (0, 1), pending_dir = (- 1, - 1),
      snake = [(4, 4), (4, 3), (3, 3)], grow = 0, paused = False, last_hand_seen_t = 0,
      food_tl = (0, 5)\<rparr>"

definition crowded_game :: game where
  "crowded_game =
     \<lparr>game_w = 348, game_h = 498, grid_w = 8, grid_h = 8, score = 4, gameOver = False,
      eat_flash_until = 0, last_move_t = 0, dir = (0, - 1), pending_dir = (0, - 1),
      snake = [(5, 2), (5, 3), (5, 4), (5, 5), (4, 5), (3, 5), (2, 5), (2, 4), (2, 3), (2, 2)],
      grow = 0, paused = False, last_hand_seen_t = 0, food_tl = (5, 0)\<rparr>"

section \<open>Properties of the building blocks\<close>

lemma random_food_location_Inr:
  "\<exists>s'. random_food_location r s = Inr s' \<and> s' = s\<lparr>food_tl := food_tl s'\<rparr>"
  by (simp add: random_food_location_def random_choice_def)

lemma new_head_Cons:
  "snake s = (hx, hy) # b \<Longrightarrow> new_head s = (hx + fst (pending_dir s), hy + snd (pending_dir s))"
  by (simp add: new_head_def)

lemma step_collide:
  assumes "snake s \<noteq> []" and "collides s"
  shows "step r now s = Inr (True, s\<lparr>dir := pending_dir s, gameOver := True\<rparr>)"
proof -
  obtain hx hy b where sn: "snake s = (hx, hy) # b"
    using assms(1) by (cases "snake s") auto
  note nh = new_head_Cons [OF sn]
  from assms(2) show ?thesis
    unfolding collides_def nh by (simp add: step_def Let_def sn)
qed

lemma step_move:
  assumes "snake s \<noteq> []" and "\<not> collides s" and "\<not> heads_into_food s"
  shows "step r now s =
     Inr (False,
          if grow s > 0
          then s\<lparr>dir := pending_dir s, snake := new_head s # snake s, grow := grow s - 1\<rparr>
          else s\<lparr>dir := pending_dir s, snake := butlast (new_head s # snake s)\<rparr>)"
proof -
  obtain hx hy b where sn: "snake s = (hx, hy) # b"
    using assms(1) by (cases "snake s") auto
  note nh = new_head_Cons [OF sn]
  from assms(2,3) show ?thesis
    unfolding collides_def heads_into_food_def nh by (simp add: step_def Let_def sn)
qed

lemma step_eat:
  assumes "snake s \<noteq> []" and "\<not> collides s" and "heads_into_food s"
  shows "\<exists>p. step r now s =
     Inr (False,
          if grow s + 2 > 0
          then s\<lparr>dir := pending_dir s, snake := new_head s # snake s, score := score s + 1,
                 grow := grow s + 1, eat_flash_until := now + 35 / 100, food_tl := p\<rparr>
          else s\<lparr>dir := pending_dir s, snake := butlast (new_head s # snake s),
                 score := score s + 1, grow := grow s + 2,
                 eat_flash_until := now + 35 / 100, food_tl := p\<rparr>)"
proof -
  obtain hx hy b where sn: "snake s = (hx, hy) # b"
    using assms(1) by (cases "snake s") auto
  note nh = new_head_Cons [OF sn]
  let ?s1 = "s\<lparr>dir := pending_dir s, snake := new_head s # snake s, score := score s + 1,
               grow := grow s + 2, eat_flash_until := now + 35 / 100\<rparr>"
  obtain p where p: "random_food_location r ?s1 = Inr (?s1\<lparr>food_tl := p\<rparr>)"
    using random_food_location_Inr [of r ?s1] by metis
  have "step r now s =
     Inr (False,
          if grow s + 2 > 0
          then s\<lparr>dir := pending_dir s, snake := new_head s # snake s, score := score s + 1,
                 grow := grow s + 1, eat_flash_until := now + 35 / 100, food_tl := p\<rparr>
          else s\<lparr>dir := pending_dir s, snake := butlast (new_head s # snake s),
                 score := score s + 1, grow := grow s + 2,
                 eat_flash_until := now + 35 / 100, food_tl := p\<rparr>)"
    using assms(2,3) p
    unfolding collides_def heads_into_food_def nh by (simp add: step_def Let_def sn)
  then show ?thesis ..
qed

lemma step_cases [case_names collide move eat]:
  assumes "snake s \<noteq> []"
  obtains "collides s"
      and "step r now s = Inr (True, s\<lparr>dir := pending_dir s, gameOver := True\<rparr>)"
  | "\<not> collides s" and "\<not> heads_into_food s"
      and "step r now s =
        Inr (False,
          if grow s > 0
          then s\<lparr>dir := pending_dir s, snake := new_head s # snake s, grow := grow s - 1\<rparr>
          else s\<lparr>dir := pending_dir s, snake := butlast (new_head s # snake s)\<rparr>)"
  | p where "\<not> collides s" and "heads_into_food s"
      and "step r now s =
        Inr (False,
          if grow s + 2 > 0
          then s\<lparr>dir := pending_dir s, snake := new_head s # snake s, score := score s + 1,
                 grow := grow s + 1, eat_flash_until := now + 35 / 100, food_tl := p\<rparr>
          else s\<lparr>dir := pending_dir s, snake := butlast (new_head s # snake s),
                 score := score s + 1, grow := grow s + 2,
                 eat_flash_until := now + 35 / 100, food_tl := p\<rparr>)"
  using step_collide [OF assms, of r now] step_move [OF assms, of r now]
    step_eat [OF assms, of r now]
  by blast

lemma step_empty: "snake s = [] \<Longrightarrow> step r now s = Inl IndexError"
  by (simp add: step_def)

lemma step_Inr_nonempty: "step r now s = Inr x \<Longrightarrow> snake s \<noteq> []"
  using step_empty [of s r now] by auto

lemma step_frame:
  assumes "step r now s = Inr (b, s')"
  shows "paused s' = paused s \<and> last_move_t s' = last_move_t s
       \<and> last_hand_seen_t s' = last_hand_seen_t s
       \<and> grid_w s' = grid_w s \<and> grid_h s' = grid_h s
       \<and> game_w s' = game_w s \<and> game_h s' = game_h s
       \<and> pending_dir s' = pending_dir s \<and> dir s' = pending_dir s"
proof -
  note ne = step_Inr_nonempty [OF assms]
  show ?thesis
    using assms by (cases rule: step_cases [OF ne, of r now]) (auto split: if_splits)
qed



lemma step_inv:
  assumes "step r now s = Inr (b, s')" and "distinct (snake s)"
  shows "snake s' \<noteq> [] \<and> distinct (snake s')"
proof -
  note ne = step_Inr_nonempty [OF assms(1)]
  have d: "\<not> collides s \<Longrightarrow> distinct (new_head s # snake s)"
    using assms(2) by (simp add: collides_def)
  have bl: "butlast (new_head s # snake s) \<noteq> []"
    using ne by simp
  show ?thesis
  proof (cases rule: step_cases [OF ne, of r now])
    case 1
    then show ?thesis using assms ne by auto
  next
    case 2
    from d [OF 2(1)] have dd: "distinct (new_head s # snake s)" .
    from 2 show ?thesis using assms(1) bl dd distinct_butlast [OF dd]
      by (auto split: if_splits)
  next
    case (3 p)
    from d [OF 3(1)] have dd: "distinct (new_head s # snake s)" .
    from 3 show ?thesis using assms(1) bl dd distinct_butlast [OF dd]
      by (auto split: if_splits)
  qed
qed

lemma step_total: "snake s \<noteq> [] \<Longrightarrow> \<exists>b s'. step r now s = Inr (b, s')"
  by (rule step_cases [of s r now]) auto


lemma run_steps_inv:
  assumes "snake s \<noteq> []" and "distinct (snake s)"
  shows "\<exists>k s'. run_steps n rnd now s = Inr (k, s') \<and> snake s' \<noteq> [] \<and> distinct (snake s')"
  using assms
proof (induction n arbitrary: rnd s)
  case 0
  then show ?case by simp
next
  case (Suc n)
  obtain b s1 where st: "step (rnd 0) now s = Inr (b, s1)"
    using step_total [OF Suc.prems(1)] by blast
  from step_inv [OF st Suc.prems(2)] have inv1: "snake s1 \<noteq> []" "distinct (snake s1)"
    by simp_all
  show ?case
  proof (cases b)
    case True
    with st inv1 show ?thesis by simp
  next
    case False
    from Suc.IH [OF inv1, of "\<lambda>i. rnd (Suc i)"] obtain k s' where
      "run_steps n (\<lambda>i. rnd (Suc i)) now s1 = Inr (k, s')" "snake s' \<noteq> []" "distinct (snake s')"
      by blast
    with st False show ?thesis by simp
  qed
qed

lemma run_steps_frame:
  assumes "run_steps n rnd now s = Inr (k, s')"
  shows "paused s' = paused s \<and> last_move_t s' = last_move_t s
       \<and> last_hand_seen_t s' = last_hand_seen_t s
       \<and> grid_w s' = grid_w s \<and> grid_h s' = grid_h s
       \<and> game_w s' = game_w s \<and> game_h s' = game_h s"
  using assms
proof (induction n arbitrary: rnd s k)
  case 0
  then show ?case by simp
next
  case (Suc n)
  from Suc.prems obtain b s1 where st: "step (rnd 0) now s = Inr (b, s1)"
    by (auto split: sum.splits)
  note fr = step_frame [OF st]
  show ?case
  proof (cases b)
    case True
    with st Suc.prems fr show ?thesis by simp
  next
    case False
    with st Suc.prems obtain k1 where
      rs: "run_steps n (\<lambda>i. rnd (Suc i)) now s1 = Inr (k1, s')"
      by (auto split: sum.splits)
    from Suc.IH [OF rs] fr show ?thesis by simp
  qed
qed


lemma py_int_of_int: "py_int (of_int n) = n"
  by (simp add: py_int_def)

lemma head_pixel_center_Cons:
  assumes "snake s = (gx, gy) # b"
  shows "head_pixel_center s =
     Inr (fst (board_origin s) + gx * cell + 13, snd (board_origin s) + gy * cell + 13)"
proof -
  have h: "real_of_int n + real_of_int cell * (5 / 10) = real_of_int (n + 13)" for n
    by (simp add: cell_def)
  show ?thesis
    unfolding head_pixel_center_def h py_int_of_int using assms
    by (simp split: prod.splits)
qed

lemma head_pixel_center_total: "snake s \<noteq> [] \<Longrightarrow> \<exists>c. head_pixel_center s = Inr c"
  using head_pixel_center_Cons [of s] by (cases "snake s") auto

lemma update_direction_from_finger_Inr:
  assumes "snake s \<noteq> []"
  shows "\<exists>d. update_direction_from_finger p s = Inr (s\<lparr>pending_dir := d\<rparr>)"
proof -
  obtain c where "head_pixel_center s = Inr c"
    using head_pixel_center_total [OF assms] by blast
  then have "\<exists>s'. update_direction_from_finger p s = Inr s' \<and> s' = s\<lparr>pending_dir := pending_dir s'\<rparr>"
    by (simp add: update_direction_from_finger_def Let_def split: prod.splits)
  then show ?thesis by metis
qed

lemma step_nonempty: "step r now s = Inr (b, s') \<Longrightarrow> snake s' \<noteq> []"
proof -
  assume st: "step r now s = Inr (b, s')"
  note ne = step_Inr_nonempty [OF st]
  show ?thesis
    using st ne by (cases rule: step_cases [OF ne, of r now]) (auto split: if_splits)
qed

lemma run_steps_total:
  assumes "snake s \<noteq> []"
  shows "\<exists>k s'. run_steps n rnd now s = Inr (k, s') \<and> snake s' \<noteq> []"
  using assms
proof (induction n arbitrary: rnd s)
  case 0
  then show ?case by simp
next
  case (Suc n)
  obtain b s1 where st: "step (rnd 0) now s = Inr (b, s1)"
    using step_total [OF Suc.prems] by blast
  note ne1 = step_nonempty [OF st]
  show ?case
  proof (cases b)
    case True
    with st ne1 show ?thesis by simp
  next
    case False
    from Suc.IH [OF ne1, of "\<lambda>i. rnd (Suc i)"] obtain k s' where
      "run_steps n (\<lambda>i. rnd (Suc i)) now s1 = Inr (k, s')" "snake s' \<noteq> []"
      by blast
    with st False show ?thesis by simp
  qed
qed

lemma signal_phase_None:
  "signal_phase now None s =
     Inr (if now - last_hand_seen_t s > 6 / 10 then s\<lparr>paused := True\<rparr> else s)"
  by (simp add: signal_phase_def)

lemma signal_phase_Some:
  assumes "snake s \<noteq> []"
  shows "\<exists>d. signal_phase now (Some p) s =
              Inr (s\<lparr>last_hand_seen_t := now, paused := False, pending_dir := d\<rparr>)"
proof -
  let ?t = "s\<lparr>last_hand_seen_t := now, paused := False\<rparr>"
  have "snake ?t \<noteq> []" using assms by simp
  from update_direction_from_finger_Inr [OF this, of p] obtain d where
    "update_direction_from_finger p ?t = Inr (?t\<lparr>pending_dir := d\<rparr>)"
    by blast
  then have "signal_phase now (Some p) s = Inr (?t\<lparr>pending_dir := d\<rparr>)"
    by (simp add: signal_phase_def)
  then show ?thesis ..
qed

lemma signal_phase_frame:
  assumes "signal_phase now p s = Inr s1"
  shows "snake s1 = snake s \<and> gameOver s1 = gameOver s \<and> last_move_t s1 = last_move_t s
       \<and> grid_w s1 = grid_w s \<and> grid_h s1 = grid_h s \<and> score s1 = score s
       \<and> grow s1 = grow s \<and> food_tl s1 = food_tl s \<and> dir s1 = dir s"
proof (cases p)
  case None
  with assms show ?thesis by (auto simp add: signal_phase_None split: if_splits)
next
  case (Some q)
  have ne: "snake s \<noteq> []"
  proof
    assume "snake s = []"
    then have "signal_phase now (Some q) s = Inl IndexError"
      by (simp add: signal_phase_def update_direction_from_finger_def head_pixel_center_def)
    with assms Some show False by simp
  qed
  from signal_phase_Some [OF ne, of now q] assms Some obtain d where
    "s1 = s\<lparr>last_hand_seen_t := now, paused := False, pending_dir := d\<rparr>"
    by auto
  then show ?thesis by simp
qed







lemma move_phase_total:
  assumes ne: "snake s \<noteq> []"
  shows "\<exists>k s'. move_phase rnd now s = Inr (k, s') \<and> snake s' \<noteq> []
           \<and> paused s' = paused s \<and> last_hand_seen_t s' = last_hand_seen_t s
           \<and> grid_w s' = grid_w s \<and> grid_h s' = grid_h s"
proof (cases "\<not> paused s \<and> now - last_move_t s \<ge> move_interval")
  case True
  obtain k s2 where rs: "run_steps (nat (catch_up_steps now s)) rnd now s = Inr (k, s2)"
    and ne2: "snake s2 \<noteq> []"
    using run_steps_total [OF ne] by blast
  from True rs have "move_phase rnd now s = Inr (k, s2\<lparr>last_move_t := now\<rparr>)"
    by (simp add: move_phase_def)
  with ne2 run_steps_frame [OF rs] show ?thesis by simp
next
  case False
  with ne show ?thesis by (auto simp add: move_phase_def)
qed


lemma update_over: "gameOver s \<Longrightarrow> update rnd now p s = Inr s"
  by (simp add: update_def update_counted_def)

lemma update_counted_alive:
  "\<not> gameOver s \<Longrightarrow> update_counted rnd now p s =
     (case signal_phase now p s of Inl e \<Rightarrow> Inl e | Inr s1 \<Rightarrow> move_phase rnd now s1)"
  by (simp add: update_counted_def)

lemma signal_phase_total:
  assumes "snake s \<noteq> []"
  shows "\<exists>s1. signal_phase now p s = Inr s1 \<and> snake s1 \<noteq> []
           \<and> (paused s1 \<longleftrightarrow> p = None \<and> (paused s \<or> now - last_hand_seen_t s > 6 / 10))"
proof (cases p)
  case None
  with assms show ?thesis by (simp add: signal_phase_None)
next
  case (Some q)
  from signal_phase_Some [OF assms, of now q] obtain d where
    "signal_phase now (Some q) s = Inr (s\<lparr>last_hand_seen_t := now, paused := False, pending_dir := d\<rparr>)"
    by blast
  with Some assms show ?thesis by simp
qed

lemma update_counted_total:
  assumes "snake s \<noteq> []"
  shows "\<exists>k s'. update_counted rnd now p s = Inr (k, s') \<and> snake s' \<noteq> []"
proof (cases "gameOver s")
  case True
  with assms show ?thesis by (simp add: update_counted_def)
next
  case False
  obtain s1 where s1: "signal_phase now p s = Inr s1" "snake s1 \<noteq> []"
    using signal_phase_total [OF assms] by blast
  from move_phase_total [OF s1(2), of rnd now] obtain k s' where
    "move_phase rnd now s1 = Inr (k, s')" "snake s' \<noteq> []"
    by blast
  with s1(1) False show ?thesis by (simp add: update_counted_alive)
qed

lemma update_counted_active:
  assumes ne: "snake s \<noteq> []" and alive: "\<not> gameOver s"
    and act: "p \<noteq> None \<or> (\<not> paused s \<and> now - last_hand_seen_t s \<le> 6 / 10)"
  shows "\<exists>s1. signal_phase now p s = Inr s1 \<and> update_counted rnd now p s = move_phase rnd now s1
           \<and> snake s1 \<noteq> [] \<and> \<not> gameOver s1 \<and> \<not> paused s1 \<and> last_move_t s1 = last_move_t s"
proof -
  obtain s1 where s1: "signal_phase now p s = Inr s1" "snake s1 \<noteq> []"
    "paused s1 \<longleftrightarrow> p = None \<and> (paused s \<or> now - last_hand_seen_t s > 6 / 10)"
    using signal_phase_total [OF ne] by blast
  from s1(3) act have "\<not> paused s1" by auto
  moreover note signal_phase_frame [OF s1(1)]
  ultimately show ?thesis
    using s1(1,2) alive by (simp add: update_counted_alive)
qed



lemma update_eq: "update rnd now p s = Inr s' \<longleftrightarrow> (\<exists>k. update_counted rnd now p s = Inr (k, s'))"
  by (cases "update_counted rnd now p s") (auto simp add: update_def)

lemma move_phase_runs:
  assumes ne: "snake s \<noteq> []" and act: "\<not> paused s" and el: "now - last_move_t s \<ge> move_interval"
  shows "\<exists>k s'. move_phase rnd now s = Inr (k, s') \<and> last_move_t s' = now"
proof -
  obtain k s2 where "run_steps (nat (catch_up_steps now s)) rnd now s = Inr (k, s2)"
    using run_steps_total [OF ne] by blast
  with act el have "move_phase rnd now s = Inr (k, s2\<lparr>last_move_t := now\<rparr>)"
    by (simp add: move_phase_def)
  then show ?thesis by simp
qed






lemma random_food_location_ex: "\<exists>p. random_food_location r s = Inr (s\<lparr>food_tl := p\<rparr>)"
  using random_food_location_Inr [of r s] by metis

lemma step_growth:
  assumes "step r now s = Inr (False, s')"
  shows "(heads_into_food s \<longrightarrow>
            score s' = score s + 1
            \<and> (if grow s + 2 > 0 then length (snake s') = length (snake s) + 1 \<and> grow s' = grow s + 1
               else length (snake s') = length (snake s) \<and> grow s' = grow s + 2))
       \<and> (\<not> heads_into_food s \<longrightarrow>
            score s' = score s
            \<and> (if grow s > 0 then length (snake s') = length (snake s) + 1 \<and> grow s' = grow s - 1
               else length (snake s') = length (snake s) \<and> grow s' = grow s))"
proof -
  note ne = step_Inr_nonempty [OF assms]
  show ?thesis
    using assms by (cases rule: step_cases [OF ne, of r now]) (auto split: if_splits)
qed

lemma reset_inv:
  assumes "reset t_move t_seen r s0 = Inr s"
  shows "snake s \<noteq> [] \<and> distinct (snake s) \<and> \<not> gameOver s"
proof -
  let ?cx = "grid_w s0 div 2" and ?cy = "grid_h s0 div 2"
  let ?t = "s0\<lparr>score := 0, gameOver := False, eat_flash_until := 0, last_move_t := t_move,
           dir := (1, 0), pending_dir := (1, 0),
           snake := [(?cx, ?cy), (?cx - 1, ?cy), (?cx - 2, ?cy)],
           grow := 0, paused := False, last_hand_seen_t := t_seen, food_tl := (0, 0)\<rparr>"
  obtain p where "random_food_location r ?t = Inr (?t\<lparr>food_tl := p\<rparr>)"
    using random_food_location_ex by blast
  with assms have "s = ?t\<lparr>food_tl := p\<rparr>"
    by (simp add: reset_def Let_def)
  then show ?thesis by simp
qed

lemma reset_total: "\<exists>s. reset t_move t_seen r s0 = Inr s"
  unfolding reset_def Let_def using random_food_location_ex by blast

lemma update_inv:
  assumes ne: "snake s \<noteq> []" and d: "distinct (snake s)"
  shows "\<exists>s'. update rnd now p s = Inr s' \<and> snake s' \<noteq> [] \<and> distinct (snake s')"
proof (cases "gameOver s")
  case True
  with assms show ?thesis by (simp add: update_over)
next
  case False
  obtain s1 where s1: "signal_phase now p s = Inr s1" "snake s1 \<noteq> []"
    using signal_phase_total [OF ne] by blast
  from signal_phase_frame [OF s1(1)] d have d1: "distinct (snake s1)"
    by simp
  show ?thesis
  proof (cases "\<not> paused s1 \<and> now - last_move_t s1 \<ge> move_interval")
    case True
    from run_steps_inv [OF s1(2) d1, of "nat (catch_up_steps now s1)" rnd now] obtain k s2 where
      "run_steps (nat (catch_up_steps now s1)) rnd now s1 = Inr (k, s2)"
      "snake s2 \<noteq> []" "distinct (snake s2)"
      by blast
    with True have "move_phase rnd now s1 = Inr (k, s2\<lparr>last_move_t := now\<rparr>)"
      "snake (s2\<lparr>last_move_t := now\<rparr>) \<noteq> []" "distinct (snake (s2\<lparr>last_move_t := now\<rparr>))"
      by (simp_all add: move_phase_def)
    with s1(1) False show ?thesis
      by (auto simp add: update_eq update_counted_alive)
  next
    case False
    then have "move_phase rnd now s1 = Inr (0, s1)"
      by (auto simp add: move_phase_def)
    with s1 d1 \<open>\<not> gameOver s\<close> show ?thesis
      by (auto simp add: update_eq update_counted_alive)
  qed
qed

lemma updates_inv:
  assumes "snake s \<noteq> []" and "distinct (snake s)"
  shows "\<exists>s'. updates calls s = Inr s' \<and> snake s' \<noteq> [] \<and> distinct (snake s')"
  using assms
proof (induction calls arbitrary: s)
  case Nil
  then show ?case by simp
next
  case (Cons c calls)
  obtain rnd now p where c: "c = (rnd, now, p)"
    by (cases c)
  from update_inv [OF Cons.prems, of rnd now p] obtain s1 where
    s1: "update rnd now p s = Inr s1" "snake s1 \<noteq> []" "distinct (snake s1)"
    by blast
  from Cons.IH [OF s1(2,3)] s1(1) c show ?case by simp
qed

lemma set_food_cells_list:
  "set (food_cells_list (x0, y0)) = {(x, y). x0 \<le> x \<and> x \<le> x0 + 2 \<and> y0 \<le> y \<and> y \<le> y0 + 2}"
proof -
  have "(x, y) \<in> set (food_cells_list (x0, y0)) \<longleftrightarrow> x0 \<le> x \<and> x \<le> x0 + 2 \<and> y0 \<le> y \<and> y \<le> y0 + 2"
    for x y
  proof
    assume "(x, y) \<in> set (food_cells_list (x0, y0))"
    then show "x0 \<le> x \<and> x \<le> x0 + 2 \<and> y0 \<le> y \<and> y \<le> y0 + 2"
      by (auto simp add: food_cells_list_def food_cells_def)
  next
    assume h: "x0 \<le> x \<and> x \<le> x0 + 2 \<and> y0 \<le> y \<and> y \<le> y0 + 2"
    have s: "set (food_cells_list (x0, y0)) = (\<Union>i\<in>{0..2}. (\<lambda>j. (x0 + i, y0 + j)) ` {0..2})"
      by (simp add: food_cells_list_def food_cells_def)
    show "(x, y) \<in> set (food_cells_list (x0, y0))"
      unfolding s
      by (intro UN_I [of "x - x0"] image_eqI [of _ _ "y - y0"]) (use h in auto)
  qed
  then show ?thesis by auto
qed

lemma block_in_grid_iff:
  "block_in_grid s (x, y) \<longleftrightarrow> 0 \<le> x \<and> x \<le> grid_w s - food_cells \<and> 0 \<le> y \<and> y \<le> grid_h s - food_cells"
proof
  assume b: "block_in_grid s (x, y)"
  have "(x, y) \<in> set (food_cells_list (x, y))" "(x + 2, y + 2) \<in> set (food_cells_list (x, y))"
    by (simp_all add: set_food_cells_list)
  with b have "0 \<le> x \<and> 0 \<le> y" "x + 2 < grid_w s \<and> y + 2 < grid_h s"
    unfolding block_in_grid_def list_all_iff by fastforce+
  then show "0 \<le> x \<and> x \<le> grid_w s - food_cells \<and> 0 \<le> y \<and> y \<le> grid_h s - food_cells"
    by (simp add: food_cells_def)
next
  assume "0 \<le> x \<and> x \<le> grid_w s - food_cells \<and> 0 \<le> y \<and> y \<le> grid_h s - food_cells"
  then show "block_in_grid s (x, y)"
    unfolding block_in_grid_def list_all_iff set_food_cells_list
    by (auto simp add: food_cells_def)
qed

lemma set_food_candidates:
  "set (food_candidates s) = {q. block_in_grid s q \<and> block_free s q}"
proof -
  have "(x, y) \<in> set (food_candidates s) \<longleftrightarrow> block_in_grid s (x, y) \<and> block_free s (x, y)" for x y
    unfolding block_in_grid_iff
    by (auto simp add: food_candidates_def block_free_def split: if_splits)
  then show ?thesis by auto
qed

section \<open>The claims\<close>

subsection \<open>C1: food and growth\<close>

text \<open>
  Claim C1, as the code has it. In a state whose growth counter is 0, a step that moves the
  head into the food block (and does not collide) adds 2 to the counter and spends 1 of it
  at once: the tail is kept, so the body is one cell longer on that very tick, and the score
  is one higher. The next step, if it neither eats nor collides, spends the second credit:
  the body is two cells longer than before the meal. The step after that, again without
  food or collision, removes the tail as usual: the length stays at plus 2 and the score at
  plus 1. Between two steps the states \<open>t1\<close> and \<open>t2\<close> may differ from the results \<open>s1\<close> and
  \<open>s2\<close> of the step before in everything but the body, the counter and the score (the
  pointer may have changed the pending direction, the clock has advanced).
\<close>

theorem food_growth:
  assumes "grow s = 0" and "heads_into_food s" and "step r1 now1 s = Inr (False, s1)"
    and "snake t1 = snake s1 \<and> grow t1 = grow s1 \<and> score t1 = score s1"
    and "\<not> heads_into_food t1" and "step r2 now2 t1 = Inr (False, s2)"
    and "snake t2 = snake s2 \<and> grow t2 = grow s2 \<and> score t2 = score s2"
    and "\<not> heads_into_food t2" and "step r3 now3 t2 = Inr (False, s3)"
  shows "length (snake s1) = length (snake s) + 1 \<and> score s1 = score s + 1
       \<and> length (snake s2) = length (snake s) + 2 \<and> score s2 = score s + 1
       \<and> length (snake s3) = length (snake s) + 2 \<and> score s3 = score s + 1"
proof -
  from step_growth [OF assms(3)] assms(1,2)
  have a: "length (snake s1) = length (snake s) + 1" "score s1 = score s + 1" "grow s1 = 1"
    by simp_all
  from step_growth [OF assms(6)] assms(4,5) a
  have b: "length (snake s2) = length (snake s) + 2" "score s2 = score s + 1" "grow s2 = 0"
    by simp_all
  from step_growth [OF assms(9)] assms(7,8) b
  have c: "length (snake s3) = length (snake s) + 2" "score s3 = score s + 1"
    by simp_all
  from a b c show ?thesis by simp
qed

text \<open>
  The three steps run from \<open>example_game\<close>: lengths 3, 4, 5, 5 and scores 0, 1, 1, 1.
\<close>

theorem food_growth_witness:
  "grow example_game = 0 \<and> heads_into_food example_game
   \<and> step 0 0 example_game = Inr (False, example_after_eating)
   \<and> \<not> heads_into_food example_after_eating
   \<and> step 0 0 example_after_eating = Inr (False, example_second_tick)
   \<and> \<not> heads_into_food example_second_tick
   \<and> step 0 0 example_second_tick = Inr (False, example_third_tick)
   \<and> length (snake example_after_eating) = length (snake example_game) + 1
   \<and> score example_after_eating = score example_game + 1
   \<and> length (snake example_second_tick) = length (snake example_game) + 2
   \<and> score example_second_tick = score example_game + 1
   \<and> length (snake example_third_tick) = length (snake example_game) + 2
   \<and> score example_third_tick = score example_game + 1"
proof -
  have h1: "grow example_game = 0" and h2: "heads_into_food example_game"
    and h3: "step 0 0 example_game = Inr (False, example_after_eating)"
    and h4: "\<not> heads_into_food example_after_eating"
    and h5: "step 0 0 example_after_eating = Inr (False, example_second_tick)"
    and h6: "\<not> heads_into_food example_second_tick"
    and h7: "step 0 0 example_second_tick = Inr (False, example_third_tick)"
    by code_simp+
  have same: "snake t = snake t \<and> grow t = grow t \<and> score t = score t" for t :: game
    by simp
  from food_growth [OF h1 h2 h3 same h4 h5 same h6 h7] h1 h2 h3 h4 h5 h6 h7
  show ?thesis by simp
qed

text \<open>
  The claim as written says that the length is unchanged on the tick that eats. The eating
  step in \<open>example_game\<close>, whose growth counter is 0, takes the body from 3 cells to 4.
\<close>

theorem food_growth_counterexample:
  "grow example_game = 0 \<and> heads_into_food example_game
   \<and> step 0 0 example_game = Inr (False, example_after_eating)
   \<and> length (snake example_game) = 3 \<and> length (snake example_after_eating) = 4
   \<and> length (snake example_after_eating) \<noteq> length (snake example_game)"
  by code_simp

subsection \<open>C2: the timestamp of the last tick\<close>

text \<open>
  Claim C2, as the code has it. A call of \<^verbatim>\<open>update\<close> that enters the movement block (the game
  is not over, it is not paused once the pointer has been looked at, and at least one
  interval has elapsed since the last tick) sets \<^verbatim>\<open>_last_move_t\<close> to the timestamp \<open>now\<close> of
  the call (line 351), whatever number of steps it ran. The snake has at least one cell,
  as in every state that \<^verbatim>\<open>reset\<close> and \<^verbatim>\<open>update\<close> produce; on an empty body the call raises.
\<close>

theorem last_tick_set_to_now:
  assumes "snake s \<noteq> []" and "\<not> gameOver s"
    and "currentHead \<noteq> None \<or> (\<not> paused s \<and> now - last_hand_seen_t s \<le> 6 / 10)"
    and "now - last_move_t s \<ge> move_interval"
  shows "\<exists>s'. update rnd now currentHead s = Inr s' \<and> last_move_t s' = now"
proof -
  obtain s1 where s1: "update_counted rnd now currentHead s = move_phase rnd now s1"
    "snake s1 \<noteq> []" "\<not> paused s1" "last_move_t s1 = last_move_t s"
    using update_counted_active [OF assms(1,2,3)] by blast
  from assms(4) s1(4) have "now - last_move_t s1 \<ge> move_interval" by simp
  from move_phase_runs [OF s1(2,3) this, of rnd] obtain k s' where
    "move_phase rnd now s1 = Inr (k, s')" "last_move_t s' = now"
    by blast
  with s1(1) show ?thesis by (auto simp add: update_eq)
qed

text \<open>
  A call 0.13 s after the last tick, in \<open>example_game\<close>.
\<close>

theorem last_tick_set_to_now_witness:
  "snake example_game \<noteq> [] \<and> \<not> gameOver example_game
   \<and> \<not> paused example_game \<and> 13 / 100 - last_hand_seen_t example_game \<le> 6 / 10
   \<and> 13 / 100 - last_move_t example_game \<ge> move_interval
   \<and> (\<exists>s'. update no_draws (13 / 100) None example_game = Inr s' \<and> last_move_t s' = 13 / 100)"
proof -
  have h1: "snake example_game \<noteq> []" and h2: "\<not> gameOver example_game"
    and h3: "\<not> paused example_game" and h4: "13 / 100 - last_hand_seen_t example_game \<le> 6 / 10"
    and h5: "13 / 100 - last_move_t example_game \<ge> move_interval"
    by (simp_all add: example_game_def move_interval_def)
  from h3 h4 have "None \<noteq> (None :: (int \<times> int) option)
      \<or> (\<not> paused example_game \<and> 13 / 100 - last_hand_seen_t example_game \<le> 6 / 10)"
    by simp
  from last_tick_set_to_now [OF h1 h2 this h5] h1 h2 h3 h4 h5 show ?thesis
    by simp
qed

text \<open>
  The claim as written says that the timestamp advances by the number of steps times the
  interval. In \<open>example_game\<close> the last tick is at 0; a call at 0.13 runs one step and leaves
  the timestamp at 0.13, not at 0 + 1 * 0.12 = 0.12: the remainder of 0.01 is dropped.
\<close>

theorem last_tick_phase_counterexample:
  "catch_up_steps (13 / 100) example_game = 1
   \<and> map_sum id last_move_t (update no_draws (13 / 100) None example_game) = Inr (13 / 100)
   \<and> last_move_t example_game
       + real_of_int (catch_up_steps (13 / 100) example_game) * move_interval = 12 / 100
   \<and> map_sum id last_move_t (update no_draws (13 / 100) None example_game)
       \<noteq> Inr (last_move_t example_game
              + real_of_int (catch_up_steps (13 / 100) example_game) * move_interval)"
  by code_simp

subsection \<open>C3: the body never overlaps itself\<close>

text \<open>
  Claim C3. Take any state \<open>s\<close> returned by \<^verbatim>\<open>reset\<close> (from any state \<open>s0\<close>, on any board, at
  any time, with any draw) and any sequence of \<^verbatim>\<open>update\<close> calls. The sequence runs without
  an exception, and if the state \<open>s'\<close> it ends in is not over, the cells of the body are
  pairwise distinct: \<^verbatim>\<open>len(body) == len(set(body))\<close>.
\<close>

theorem no_self_overlap:
  "(\<exists>s s'. reset t_move t_seen r s0 = Inr s \<and> updates calls s = Inr s')
   \<and> (reset t_move t_seen r s0 = Inr s \<and> updates calls s = Inr s' \<and> \<not> gameOver s' \<longrightarrow>
        distinct (snake s') \<and> length (snake s') = card (set (snake s')))"
proof (rule conjI)
  obtain s1 where r: "reset t_move t_seen r s0 = Inr s1"
    using reset_total by blast
  from reset_inv [OF r] updates_inv [of s1 calls] r
  show "\<exists>s s'. reset t_move t_seen r s0 = Inr s \<and> updates calls s = Inr s'"
    by blast
next
  show "reset t_move t_seen r s0 = Inr s \<and> updates calls s = Inr s' \<and> \<not> gameOver s' \<longrightarrow>
        distinct (snake s') \<and> length (snake s') = card (set (snake s'))"
  proof
    assume h: "reset t_move t_seen r s0 = Inr s \<and> updates calls s = Inr s' \<and> \<not> gameOver s'"
    from reset_inv [of t_move t_seen r s0 s] h updates_inv [of s calls]
    have d: "distinct (snake s')"
      by auto
    then show "distinct (snake s') \<and> length (snake s') = card (set (snake s'))"
      by (simp add: distinct_card)
  qed
qed

text \<open>
  A reset that yields \<open>example_game\<close>, then two calls: one step to the right that eats,
  then a turn upwards and one more step.
\<close>

theorem no_self_overlap_witness:
  "reset 0 0 18 example_game = Inr example_game
   \<and> updates [(no_draws, 13 / 100, None), (no_draws, 30 / 100, Some (213, 160))] example_game
       = Inr example_turned
   \<and> \<not> gameOver example_turned
   \<and> distinct (snake example_turned)
   \<and> length (snake example_turned) = card (set (snake example_turned))"
proof -
  have h1: "reset 0 0 18 example_game = Inr example_game"
    by code_simp
  have h2: "updates [(no_draws, 13 / 100, None), (no_draws, 30 / 100, Some (213, 160))] example_game
       = Inr example_turned"
    by code_simp
  have h3: "\<not> gameOver example_turned"
    by (simp add: example_turned_def)
  from no_self_overlap [of 0 0 18 example_game _ example_game example_turned] h1 h2 h3
  show ?thesis by blast
qed

subsection \<open>C4: bounded catch-up\<close>



subsection \<open>C5: the direction resolver\<close>

text \<open>
  Claim C5. Let \<open>(dx, dy)\<close> be the pointer minus the pixel centre of the head and \<open>dead\<close> the
  deadzone \<^verbatim>\<open>cell * 0.55\<close>. Then \<^verbatim>\<open>_update_direction_from_finger\<close>
  \<^item> leaves the state untouched when both \<open>|dx|\<close> and \<open>|dy|\<close> are below the deadzone;
  \<^item> takes the diagonal \<open>(sgn dx, sgn dy)\<close> as candidate when both are at or beyond it;
  \<^item> takes the cardinal direction of the one axis that is at or beyond it otherwise;
  \<^item> and in each case leaves the state untouched when the candidate is the exact negation
    of the current direction \<open>dir\<close>, and stores the candidate in \<open>pending_dir\<close> if not.
\<close>

theorem direction_resolver:
  assumes hc: "head_pixel_center s = Inr (cx, cy)"
    and dx: "dx = fst pointer - cx"
    and dy: "dy = snd pointer - cy"
    and dead: "dead = real_of_int cell * (55 / 100)"
  shows "(\<bar>real_of_int dx\<bar> < dead \<and> \<bar>real_of_int dy\<bar> < dead \<longrightarrow>
            update_direction_from_finger pointer s = Inr s)
       \<and> (\<bar>real_of_int dx\<bar> \<ge> dead \<and> \<bar>real_of_int dy\<bar> \<ge> dead \<longrightarrow>
            update_direction_from_finger pointer s =
              Inr (if (sgn dx, sgn dy) = (- fst (dir s), - snd (dir s)) then s
                   else s\<lparr>pending_dir := (sgn dx, sgn dy)\<rparr>))
       \<and> (\<bar>real_of_int dx\<bar> \<ge> dead \<and> \<bar>real_of_int dy\<bar> < dead \<longrightarrow>
            update_direction_from_finger pointer s =
              Inr (if (sgn dx, 0) = (- fst (dir s), - snd (dir s)) then s
                   else s\<lparr>pending_dir := (sgn dx, 0)\<rparr>))
       \<and> (\<bar>real_of_int dx\<bar> < dead \<and> \<bar>real_of_int dy\<bar> \<ge> dead \<longrightarrow>
            update_direction_from_finger pointer s =
              Inr (if (0, sgn dy) = (- fst (dir s), - snd (dir s)) then s
                   else s\<lparr>pending_dir := (0, sgn dy)\<rparr>))"
proof -
  have d: "dead = 143 / 10"
    by (simp add: dead cell_def)
  have lt: "\<bar>real_of_int n\<bar> < dead \<longleftrightarrow> \<bar>n\<bar> \<le> 14" for n
    unfolding d by linarith
  have ge: "dead \<le> \<bar>real_of_int n\<bar> \<longleftrightarrow> \<not> \<bar>n\<bar> \<le> 14" for n
    unfolding d by linarith
  have unf: "update_direction_from_finger pointer s =
     (if \<bar>dx\<bar> \<le> 14 \<and> \<bar>dy\<bar> \<le> 14 then Inr s
      else
        (let sx = (if \<bar>dx\<bar> \<le> 14 then 0 else if dx > 0 then 1 else - 1 :: int);
             sy = (if \<bar>dy\<bar> \<le> 14 then 0 else if dy > 0 then 1 else - 1 :: int);
             cand = (if sx \<noteq> 0 \<and> sy \<noteq> 0 then (sx, sy)
                     else if \<bar>dx\<bar> \<ge> \<bar>dy\<bar> then (if dx > 0 then (1, 0) else (- 1, 0))
                     else (if dy > 0 then (0, 1) else (0, - 1)))
         in if fst cand = - fst (dir s) \<and> snd cand = - snd (dir s) then Inr s
            else Inr (s\<lparr>pending_dir := cand\<rparr>)))"
    unfolding update_direction_from_finger_def hc sum.case prod.case
      dx [symmetric] dy [symmetric] dead [symmetric] Let_def lt
    by (rule refl)
  have c1: "\<bar>dx\<bar> \<le> 14 \<and> \<bar>dy\<bar> \<le> 14 \<longrightarrow> update_direction_from_finger pointer s = Inr s"
    unfolding unf by simp
  have c2: "\<not> \<bar>dx\<bar> \<le> 14 \<and> \<not> \<bar>dy\<bar> \<le> 14 \<longrightarrow>
            update_direction_from_finger pointer s =
              Inr (if (sgn dx, sgn dy) = (- fst (dir s), - snd (dir s)) then s
                   else s\<lparr>pending_dir := (sgn dx, sgn dy)\<rparr>)"
    unfolding unf by (auto simp add: Let_def sgn_if)
  have c3: "\<not> \<bar>dx\<bar> \<le> 14 \<and> \<bar>dy\<bar> \<le> 14 \<longrightarrow>
            update_direction_from_finger pointer s =
              Inr (if (sgn dx, 0) = (- fst (dir s), - snd (dir s)) then s
                   else s\<lparr>pending_dir := (sgn dx, 0)\<rparr>)"
    unfolding unf by (auto simp add: Let_def sgn_if)
  have c4: "\<bar>dx\<bar> \<le> 14 \<and> \<not> \<bar>dy\<bar> \<le> 14 \<longrightarrow>
            update_direction_from_finger pointer s =
              Inr (if (0, sgn dy) = (- fst (dir s), - snd (dir s)) then s
                   else s\<lparr>pending_dir := (0, sgn dy)\<rparr>)"
    unfolding unf by (auto simp add: Let_def sgn_if)
  show ?thesis
    unfolding lt ge using c1 c2 c3 c4 by blast
qed

text \<open>
  Four pointers around the head of \<open>example_game\<close>, whose pixel centre is \<open>(187, 187)\<close> and
  whose direction is \<open>(1, 0)\<close>: inside the deadzone, up and to the right, straight up, and
  straight to the left (a reversal).
\<close>

theorem direction_resolver_witness:
  "head_pixel_center example_game = Inr (187, 187)
   \<and> update_direction_from_finger (190, 185) example_game = Inr example_game
   \<and> update_direction_from_finger (207, 167) example_game
       = Inr (example_game\<lparr>pending_dir := (1, - 1)\<rparr>)
   \<and> update_direction_from_finger (187, 160) example_game
       = Inr (example_game\<lparr>pending_dir := (0, - 1)\<rparr>)
   \<and> update_direction_from_finger (150, 187) example_game = Inr example_game"
proof -
  have hc: "head_pixel_center example_game = Inr (187, 187)"
    by code_simp
  have dir: "dir example_game = (1, 0)"
    by (simp add: example_game_def)
  note inside = direction_resolver [OF hc refl refl refl, of "(190, 185)"]
  note diagonal = direction_resolver [OF hc refl refl refl, of "(207, 167)"]
  note cardinal = direction_resolver [OF hc refl refl refl, of "(187, 160)"]
  note reversal = direction_resolver [OF hc refl refl refl, of "(150, 187)"]
  from hc inside diagonal cardinal reversal show ?thesis
    by (simp add: cell_def dir)
qed

subsection \<open>C6: food placement\<close>

text \<open>
  Claim C6. On a board of at least 8 by 8 cells and for every body, \<^verbatim>\<open>_random_food_location\<close>
  raises no exception and changes \<open>food_tl\<close> only. The block at the new top-left lies in the
  grid. If some block in the grid is free of the snake, the block chosen is free of the
  snake; if none is, the top-left is that of the centre block,
  \<^verbatim>\<open>((grid_w - k) // 2, (grid_h - k) // 2)\<close>, overlap accepted.
\<close>

theorem food_placement:
  assumes "grid_w s \<ge> 8" and "grid_h s \<ge> 8"
  shows "\<exists>p. random_food_location r s = Inr (s\<lparr>food_tl := p\<rparr>) \<and> block_in_grid s p
          \<and> ((\<exists>q. block_in_grid s q \<and> block_free s q) \<longrightarrow> block_free s p)
          \<and> (\<not> (\<exists>q. block_in_grid s q \<and> block_free s q) \<longrightarrow>
               p = ((grid_w s - food_cells) div 2, (grid_h s - food_cells) div 2))"
proof (cases "food_candidates s = []")
  case True
  let ?p = "((grid_w s - food_cells) div 2, (grid_h s - food_cells) div 2)"
  from True assms have "random_food_location r s = Inr (s\<lparr>food_tl := ?p\<rparr>)"
    by (simp add: random_food_location_def food_cells_def)
  moreover have "0 \<le> (grid_w s - 3) div 2 \<and> (grid_w s - 3) div 2 \<le> grid_w s - 3"
    "0 \<le> (grid_h s - 3) div 2 \<and> (grid_h s - 3) div 2 \<le> grid_h s - 3"
    using assms by presburger+
  then have "block_in_grid s ?p"
    unfolding block_in_grid_iff by (simp add: food_cells_def)
  moreover from True set_food_candidates [of s]
  have "\<not> (\<exists>q. block_in_grid s q \<and> block_free s q)"
    by simp
  ultimately show ?thesis by blast
next
  case False
  let ?p = "food_candidates s ! (r mod length (food_candidates s))"
  from False assms have "random_food_location r s = Inr (s\<lparr>food_tl := ?p\<rparr>)"
    by (simp add: random_food_location_def random_choice_def food_cells_def)
  moreover from False have "?p \<in> set (food_candidates s)"
    by simp
  then have "block_in_grid s ?p \<and> block_free s ?p"
    by (simp add: set_food_candidates)
  ultimately show ?thesis by blast
qed

text \<open>
  In \<open>example_game\<close> the draw 18 picks the free block at \<open>(5, 3)\<close>; in \<open>crowded_game\<close> no block
  is free and the result is the centre block at \<open>(2, 2)\<close>.
\<close>

theorem food_placement_witness:
  "grid_w example_game \<ge> 8 \<and> grid_h example_game \<ge> 8
   \<and> block_in_grid example_game (5, 3) \<and> block_free example_game (5, 3)
   \<and> (\<exists>p. random_food_location 18 example_game = Inr (example_game\<lparr>food_tl := p\<rparr>)
           \<and> block_in_grid example_game p \<and> block_free example_game p)
   \<and> random_food_location 18 example_game = Inr (example_game\<lparr>food_tl := (5, 3)\<rparr>)
   \<and> grid_w crowded_game \<ge> 8 \<and> grid_h crowded_game \<ge> 8
   \<and> food_candidates crowded_game = []
   \<and> (\<exists>p. random_food_location 18 crowded_game = Inr (crowded_game\<lparr>food_tl := p\<rparr>)
           \<and> block_in_grid crowded_game p \<and> p = (2, 2))"
proof -
  have g: "grid_w example_game \<ge> 8" "grid_h example_game \<ge> 8"
    and c: "grid_w crowded_game \<ge> 8" "grid_h crowded_game \<ge> 8"
    by (simp_all add: example_game_def crowded_game_def)
  have v: "block_in_grid example_game (5, 3) \<and> block_free example_game (5, 3)"
    by code_simp
  have e: "random_food_location 18 example_game = Inr (example_game\<lparr>food_tl := (5, 3)\<rparr>)"
    by code_simp
  have n: "food_candidates crowded_game = []"
    by code_simp
  then have n': "\<not> (\<exists>q. block_in_grid crowded_game q \<and> block_free crowded_game q)"
    using set_food_candidates [of crowded_game] by simp
  have m: "((grid_w crowded_game - food_cells) div 2, (grid_h crowded_game - food_cells) div 2) = (2, 2)"
    by (simp add: crowded_game_def food_cells_def)
  from food_placement [OF g, of 18] v
  have 1: "\<exists>p. random_food_location 18 example_game = Inr (example_game\<lparr>food_tl := p\<rparr>)
           \<and> block_in_grid example_game p \<and> block_free example_game p"
    by blast
  from food_placement [OF c, of 18] n' m
  have 2: "\<exists>p. random_food_location 18 crowded_game = Inr (crowded_game\<lparr>food_tl := p\<rparr>)
           \<and> block_in_grid crowded_game p \<and> p = (2, 2)"
    by metis
  from g c v e n 1 2 show ?thesis by simp
qed

subsection \<open>C7: the pause hysteresis\<close>



subsection \<open>C8: a finished game is frozen\<close>

text \<open>
  Claim C8. Once \<open>gameOver\<close> is true, \<^verbatim>\<open>update\<close> returns at once: whatever the draws, the
  timestamp and the pointer, a call leaves every attribute of the game as it was, and so
  does any sequence of calls. In particular \<open>gameOver\<close> stays true; only \<^verbatim>\<open>reset\<close> clears it.
\<close>

theorem game_over_is_terminal:
  assumes "gameOver s"
  shows "update rnd now currentHead s = Inr s \<and> updates calls s = Inr s"
proof
  show "update rnd now currentHead s = Inr s"
    using assms by (rule update_over)
  show "updates calls s = Inr s"
    using assms by (induction calls) (auto simp add: update_over)
qed

text \<open>
  \<open>example_game\<close> with the flag set, under one call and under two.
\<close>

theorem game_over_is_terminal_witness:
  "gameOver (example_game\<lparr>gameOver := True\<rparr>)
   \<and> update no_draws 5 (Some (300, 20)) (example_game\<lparr>gameOver := True\<rparr>)
       = Inr (example_game\<lparr>gameOver := True\<rparr>)
   \<and> updates [(no_draws, 6, None), (no_draws, 7, Some (10, 10))] (example_game\<lparr>gameOver := True\<rparr>)
       = Inr (example_game\<lparr>gameOver := True\<rparr>)"
proof -
  have h: "gameOver (example_game\<lparr>gameOver := True\<rparr>)"
    by simp
  from game_over_is_terminal [OF h] h show ?thesis
    by simp
qed

subsection \<open>C9: moving into the tail cell\<close>

text \<open>
  Claim C9. The collision test looks the new head up in the whole body, tail included,
  before the head is inserted and before the tail is removed. So a step whose new head is
  the cell of the current tail is a collision whatever the growth counter is (0 included):
  the loop is left, \<open>gameOver\<close> is set and the body is unchanged (only \<open>dir\<close> has taken the
  pending direction).
\<close>

theorem tail_cell_is_fatal:
  assumes "snake s \<noteq> []" and "new_head s = last (snake s)"
  shows "step r now s = Inr (True, s\<lparr>dir := pending_dir s, gameOver := True\<rparr>)"
proof -
  have "new_head s \<in> set (snake s)"
    using assms by simp
  then have "collides s"
    by (simp add: collides_def)
  with assms(1) show ?thesis
    by (rule step_collide)
qed

text \<open>
  In \<open>tail_game\<close> the head is at \<open>(4, 4)\<close>, the tail at \<open>(3, 3)\<close>, the pending direction is
  \<open>(- 1, - 1)\<close> and the growth counter is 0.
\<close>

theorem tail_cell_is_fatal_witness:
  "grow tail_game = 0 \<and> snake tail_game \<noteq> [] \<and> new_head tail_game = last (snake tail_game)
   \<and> step 0 1 tail_game = Inr (True, tail_game\<lparr>dir := (- 1, - 1), gameOver := True\<rparr>)"
proof -
  have h1: "snake tail_game \<noteq> []"
    by (simp add: tail_game_def)
  have h2: "new_head tail_game = last (snake tail_game)"
    by (simp add: tail_game_def new_head_def)
  from tail_cell_is_fatal [OF h1 h2, of 0 1] h1 h2 show ?thesis
    by (simp add: tail_game_def)
qed

subsection \<open>C10: full catch-up after a pause\<close>



end
